theory Spec2Isabelle
  imports Main "HOL-Library.Word" "HOL-Library.Sublist"
begin

unbundle bit_operations_syntax

section \<open>Package fulltext: a trigram index with a per-document verifier\<close>

text \<open>
  The development embeds \<^verbatim>\<open>src/index.go\<close>: \<^verbatim>\<open>analyze\<close>, \<^verbatim>\<open>Service.Search\<close>,
  \<^verbatim>\<open>Service.Upsert\<close>, \<^verbatim>\<open>Service.DocCount\<close> and \<^verbatim>\<open>NewService\<close>.
  The service calls three packages whose code is not part of the repository's sources:
  the tokenizer \<^verbatim>\<open>stringy.Analyze\<close>, the posting index \<^verbatim>\<open>go-trigram\<close> and the standard
  library's \<^verbatim>\<open>index/suffixarray\<close>. The tokenizer is a parameter of every function that
  uses it; the other two are modelled below, each under a comment that says so.

  Go strings are byte sequences: \<^typ>\<open>string\<close> (a list of 8-bit characters).
  External document IDs are \<^verbatim>\<open>uint64\<close>. Internal document IDs (\<^verbatim>\<open>trigram.DocID\<close>, a
  \<^verbatim>\<open>uint32\<close> converted from a slice length) are natural numbers: the model covers an
  index that has allocated fewer than \<open>2^32\<close> internal IDs, where the conversion is exact.
\<close>

type_synonym uint64 = "64 word"
type_synonym DocID = nat
type_synonym T = "32 word"
type_synonym tokenizer = "string \<Rightarrow> string list"

subsection \<open>Constants of index.go\<close>

definition saDelim :: string where
  "saDelim = [CHR 0x00]"

text \<open>\<^verbatim>\<open>strings.NewReplacer(`-`, ` `, `_`, ` `, `:`, ` `, `|`, ` `)\<close>: every old string is
  one byte, so \<^verbatim>\<open>Replace\<close> maps the text byte by byte.\<close>

definition replacer_Replace :: "string \<Rightarrow> string" where
  "replacer_Replace text =
     map (\<lambda>c. if c = CHR ''-'' \<or> c = CHR ''_'' \<or> c = CHR '':'' \<or> c = CHR ''|''
              then CHR '' '' else c) text"

subsection \<open>The n-gram extractor (package go-trigram)\<close>

text \<open>Modelled from the spec: the n-gram extractor of package go-trigram (section 4.1),
  which \<^verbatim>\<open>analyze\<close> calls and the sources do not contain. An n-gram packs three consecutive
  bytes of the token into a \<^verbatim>\<open>uint32\<close>; windows have the fixed width 3 and slide by one
  byte. A token shorter than the width still yields one n-gram, the token itself: its bytes
  packed the same way. \<^verbatim>\<open>Extract\<close> receives the token with the marker already prepended (by
  \<^verbatim>\<open>analyze\<close>), appends to the slice it is given and skips an n-gram the slice already
  holds; \<^verbatim>\<open>ExtractAll\<close> keeps every n-gram.\<close>

definition tri :: "char \<Rightarrow> char \<Rightarrow> char \<Rightarrow> T" where
  "tri a b c = (push_bit 16 (of_char a) OR push_bit 8 (of_char b)) OR of_char c"

definition short :: "string \<Rightarrow> T" where
  "short s = foldl (\<lambda>t c. push_bit 8 t OR of_char c) 0 s"

definition appendIfUnique :: "T list \<Rightarrow> T \<Rightarrow> T list" where
  "appendIfUnique t n = (if List.member t n then t else t @ [n])"

fun windows :: "string \<Rightarrow> T list" where
  "windows (a # b # c # s) = tri a b c # windows (b # c # s)"
| "windows s = []"

definition ngrams :: "string \<Rightarrow> T list" where
  "ngrams s = (if length s < 3 then [short s] else windows s)"

definition Extract :: "string \<Rightarrow> T list \<Rightarrow> T list" where
  "Extract s trigrams = foldl appendIfUnique trigrams (ngrams s)"

definition ExtractAll :: "string \<Rightarrow> T list \<Rightarrow> T list" where
  "ExtractAll s trigrams = trigrams @ ngrams s"

subsection \<open>The posting index (package go-trigram)\<close>

text \<open>Modelled from the spec: the posting index of package go-trigram (section 4.2), which
  the service calls and the sources do not contain. The package's index is one Go map
  from trigram to posting slice with a reserved key for the slice of all allocated
  document IDs; here the reserved entry is the field \<open>allDocIDs\<close> (no trigram of three bytes
  equals the reserved key). A pruned trigram keeps its key with an empty slice, an unknown
  trigram has no key.
  \<^item> \<^verbatim>\<open>AddTrigrams\<close> allocates the next ID (the number of IDs allocated so far), appends it
    to the posting of every supplied trigram that is not pruned, and records it.
  \<^item> \<^verbatim>\<open>Delete\<close> re-derives every n-gram of the word and removes the ID from each posting;
    a posting that held only this ID loses its key; a pruned or unknown trigram is skipped.
    The package finds the ID by binary search in the ascending posting; the model removes
    its occurrence.
  \<^item> \<^verbatim>\<open>Prune\<close> empties every posting longer than \<^verbatim>\<open>int(pct * float64(n))\<close>, \<open>n\<close> the number
    of allocated IDs. The service only calls \<^verbatim>\<open>Prune(0.1)\<close>, and for every slice length
    that product truncates to \<open>n div 10\<close>: \<open>Prune\<close> takes the bound.
  \<^item> \<^verbatim>\<open>Sort\<close> sorts every slice.
  \<^item> \<^verbatim>\<open>QueryTrigrams\<close> answers nothing when a trigram is unknown, every allocated ID when
    all trigrams are pruned, and otherwise the IDs common to the postings that are not
    pruned. The package intersects in the order of posting length; on ascending postings
    the result is the same ascending slice in any order, and the model starts from the
    first posting that is not pruned.\<close>

record Index =
  post :: "T \<rightharpoonup> DocID list"
  allDocIDs :: "DocID list"

definition NewIndex :: Index where
  "NewIndex = \<lparr>post = Map.empty, allDocIDs = []\<rparr>"

definition insert1 :: "DocID \<Rightarrow> (T \<rightharpoonup> DocID list) \<Rightarrow> T \<Rightarrow> (T \<rightharpoonup> DocID list)" where
  "insert1 docid p t =
     (case p t of
        None \<Rightarrow> p(t \<mapsto> [docid])
      | Some idxt \<Rightarrow> if idxt \<noteq> [] \<and> last idxt \<noteq> docid then p(t \<mapsto> idxt @ [docid]) else p)"

definition InsertTrigrams :: "T list \<Rightarrow> DocID \<Rightarrow> Index \<Rightarrow> Index" where
  "InsertTrigrams ts docid ix =
     \<lparr>post = foldl (insert1 docid) (post ix) ts, allDocIDs = allDocIDs ix @ [docid]\<rparr>"

definition AddTrigrams :: "T list \<Rightarrow> Index \<Rightarrow> Index \<times> DocID" where
  "AddTrigrams ts ix =
     (let docid = length (allDocIDs ix) in (InsertTrigrams ts docid ix, docid))"

definition delete1 :: "DocID \<Rightarrow> (T \<rightharpoonup> DocID list) \<Rightarrow> T \<Rightarrow> (T \<rightharpoonup> DocID list)" where
  "delete1 docid p t =
     (case p t of
        None \<Rightarrow> p
      | Some ids \<Rightarrow>
          if ids = [] then p
          else if ids = [docid] then p(t := None)
          else if List.member ids docid then p(t \<mapsto> remove1 docid ids)
          else p)"

definition Delete :: "string \<Rightarrow> DocID \<Rightarrow> Index \<Rightarrow> Index" where
  "Delete s docid ix = ix\<lparr>post := foldl (delete1 docid) (post ix) (ExtractAll s [])\<rparr>"

definition Prune :: "nat \<Rightarrow> Index \<Rightarrow> Index" where
  "Prune maxDocs ix =
     ix\<lparr>post := (\<lambda>k. case post ix k of
                        None \<Rightarrow> None
                      | Some v \<Rightarrow> if length v > maxDocs then Some [] else Some v)\<rparr>"

definition Sort :: "Index \<Rightarrow> Index" where
  "Sort ix = \<lparr>post = (\<lambda>k. map_option sort (post ix k)), allDocIDs = sort (allDocIDs ix)\<rparr>"

definition pruned :: "Index \<Rightarrow> T \<Rightarrow> bool" where
  "pruned ix t = (post ix t = Some [])"

definition posting :: "Index \<Rightarrow> T \<Rightarrow> DocID list" where
  "posting ix t = (case post ix t of None \<Rightarrow> [] | Some ids \<Rightarrow> ids)"

definition QueryTrigrams :: "T list \<Rightarrow> Index \<Rightarrow> DocID list" where
  "QueryTrigrams ts ix =
     (if ts = [] then allDocIDs ix
      else if list_ex (\<lambda>t. post ix t = None) ts then []
      else case filter (\<lambda>t. \<not> pruned ix t) ts of
             [] \<Rightarrow> allDocIDs ix
           | t # rest \<Rightarrow>
               filter (\<lambda>d. list_all (\<lambda>u. List.member (posting ix u) d) rest) (posting ix t))"

subsection \<open>The exact-match verifier (package index/suffixarray)\<close>

text \<open>Modelled from the spec: the exact-match verifier (section 4.3), Go's
  \<^verbatim>\<open>index/suffixarray\<close>. \<^verbatim>\<open>suffixarray.New(data)\<close> is represented by \<open>data\<close>, and
  \<^verbatim>\<open>Lookup(s, 1)\<close> is non-nil exactly when \<open>s\<close> is not empty and occurs in the data.\<close>

definition Lookup_found :: "string \<Rightarrow> string \<Rightarrow> bool" where
  "Lookup_found data s = (s \<noteq> [] \<and> sublist s data)"

subsection \<open>index.go\<close>

record meta =
  sa :: string
  id_ext :: uint64

record Doc =
  ID :: uint64
  Text :: string
  PriorText :: string

record Service =
  docs :: "DocID \<rightharpoonup> meta"
  extIDs :: "uint64 \<rightharpoonup> DocID"
  idx :: Index

datatype error =
    ErrIDZero nat
  | ErrNoPriorText nat
  | ErrNotEnoughContent string
  | ErrContext

definition NewService :: Service where
  "NewService = \<lparr>docs = Map.empty, extIDs = Map.empty, idx = NewIndex\<rparr>"

definition DocCount :: "Service \<Rightarrow> nat" where
  "DocCount svc = card (dom (docs svc))"

text \<open>\<^verbatim>\<open>analyze\<close>: the tokenizer \<open>Analyze\<close> stands for \<^verbatim>\<open>stringy.Analyze\<close>.\<close>

definition analyze :: "tokenizer \<Rightarrow> string \<Rightarrow> T list \<times> string list" where
  "analyze Analyze text =
     (let words = Analyze (replacer_Replace text) in
      if words = [] then ([], words)
      else let words = map (\<lambda>w. CHR ''_'' # w) words in
           (foldl (\<lambda>tGrams tok. Extract tok tGrams) [] words, words))"

text \<open>\<^verbatim>\<open>Search\<close>. The context is the sequence of answers of its \<^verbatim>\<open>Done\<close> channel: \<open>ctx k\<close>
  says whether the channel is closed when the loop reaches candidate number \<open>k\<close>. The
  result is the pair the Go function returns: the slice (\<open>None\<close> is \<^verbatim>\<open>nil\<close>) and the error
  (\<open>None\<close> is \<^verbatim>\<open>nil\<close>; \<open>ErrContext\<close> is \<^verbatim>\<open>ctx.Err()\<close>).\<close>

fun candidateLoop ::
  "(nat \<Rightarrow> bool) \<Rightarrow> (DocID \<rightharpoonup> meta) \<Rightarrow> string list \<Rightarrow> nat \<Rightarrow> DocID list \<Rightarrow> uint64 list
     \<Rightarrow> uint64 list option \<times> error option" where
  "candidateLoop ctx ds words k [] docIDs = (Some docIDs, None)"
| "candidateLoop ctx ds words k (docID # candidates) docIDs =
     (if ctx k then (None, Some ErrContext)
      else case ds docID of
             None \<Rightarrow> candidateLoop ctx ds words (Suc k) candidates docIDs
           | Some doc \<Rightarrow>
               if list_all (Lookup_found (sa doc)) words
               then candidateLoop ctx ds words (Suc k) candidates (docIDs @ [id_ext doc])
               else candidateLoop ctx ds words (Suc k) candidates docIDs)"

definition Search ::
  "tokenizer \<Rightarrow> (nat \<Rightarrow> bool) \<Rightarrow> Service \<Rightarrow> string \<Rightarrow> uint64 list option \<times> error option" where
  "Search Analyze ctx svc query =
     (case analyze Analyze query of
        (tGrams, words) \<Rightarrow>
          if tGrams = [] then (None, Some (ErrNotEnoughContent query))
          else candidateLoop ctx (docs svc) words 0 (QueryTrigrams tGrams (idx svc)) [])"

text \<open>\<^verbatim>\<open>Upsert\<close>: the validation loop, the body of the update loop, and the whole call. The
  result is the service after the call and the error returned.\<close>

fun validate :: "(uint64 \<rightharpoonup> DocID) \<Rightarrow> nat \<Rightarrow> Doc list \<Rightarrow> error option" where
  "validate ext i [] = None"
| "validate ext i (doc # rest) =
     (if ID doc = 0 then Some (ErrIDZero i)
      else if ext (ID doc) \<noteq> None \<and> PriorText doc = [] then Some (ErrNoPriorText i)
      else validate ext (Suc i) rest)"

definition removeOld :: "tokenizer \<Rightarrow> Service \<Rightarrow> Doc \<Rightarrow> Service" where
  "removeOld Analyze svc doc =
     (case extIDs svc (ID doc) of
        None \<Rightarrow> svc
      | Some docID \<Rightarrow>
          svc\<lparr>docs := (docs svc)(docID := None),
              idx := foldl (\<lambda>ix word. Delete word docID ix) (idx svc)
                       (snd (analyze Analyze (PriorText doc)))\<rparr>)"

definition verifierText :: "string list \<Rightarrow> string" where
  "verifierText words = concat (map (\<lambda>word. saDelim @ word) words) @ saDelim"

definition upsertDoc :: "tokenizer \<Rightarrow> Service \<Rightarrow> Doc \<Rightarrow> Service" where
  "upsertDoc Analyze svc doc =
     (let svc1 = removeOld Analyze svc doc in
      case analyze Analyze (Text doc) of
        (tGrams, words) \<Rightarrow>
          (case AddTrigrams tGrams (idx svc1) of
             (ix, docID) \<Rightarrow>
               \<lparr>docs = (docs svc1)(docID \<mapsto> \<lparr>sa = verifierText words, id_ext = ID doc\<rparr>),
                extIDs = (extIDs svc1)(ID doc \<mapsto> docID),
                idx = ix\<rparr>))"

definition Upsert :: "tokenizer \<Rightarrow> Doc list \<Rightarrow> Service \<Rightarrow> Service \<times> error option" where
  "Upsert Analyze ds svc =
     (case validate (extIDs svc) 0 ds of
        Some err \<Rightarrow> (svc, Some err)
      | None \<Rightarrow>
          (let svc' = foldl (upsertDoc Analyze) svc ds in
           (svc'\<lparr>idx := Sort (Prune (length (allDocIDs (idx svc')) div 10) (idx svc'))\<rparr>,
            None)))"

subsection \<open>Words for the statements\<close>

text \<open>The documents a call of \<^verbatim>\<open>Upsert\<close> rejects, and the error for the document at index
  \<open>i\<close>; the candidates that pass the verifier loop of \<^verbatim>\<open>Search\<close>.\<close>

definition invalid :: "Service \<Rightarrow> Doc \<Rightarrow> bool" where
  "invalid svc doc = (ID doc = 0 \<or> (extIDs svc (ID doc) \<noteq> None \<and> PriorText doc = []))"

definition validationError :: "nat \<Rightarrow> Doc \<Rightarrow> error" where
  "validationError i doc = (if ID doc = 0 then ErrIDZero i else ErrNoPriorText i)"

definition verified :: "(DocID \<rightharpoonup> meta) \<Rightarrow> string list \<Rightarrow> DocID \<Rightarrow> bool" where
  "verified ds words d =
     (case ds d of None \<Rightarrow> False | Some doc \<Rightarrow> list_all (Lookup_found (sa doc)) words)"

text \<open>Two contexts: one that is never cancelled, one that is cancelled from the start.\<close>

definition neverDone :: "nat \<Rightarrow> bool" where
  "neverDone k = False"

definition alwaysDone :: "nat \<Rightarrow> bool" where
  "alwaysDone k = True"

subsection \<open>A tokenizer for the concrete scenarios\<close>

text \<open>Modelled from the spec: the tokenizer \<^verbatim>\<open>stringy.Analyze\<close> (section 1, "Analyzer"),
  which the sources do not contain: an ordered sequence of lowercase word tokens. This
  instance lowercases ASCII letters and splits at every byte that is not an ASCII letter
  or digit. The general theorems take the tokenizer as a parameter; this instance serves
  the concrete scenarios, whose texts are ASCII letters and spaces.\<close>

definition wordChar :: "char \<Rightarrow> bool" where
  "wordChar c = (let n = (of_char c :: nat) in
     (48 \<le> n \<and> n \<le> 57) \<or> (65 \<le> n \<and> n \<le> 90) \<or> (97 \<le> n \<and> n \<le> 122))"

definition toLower :: "char \<Rightarrow> char" where
  "toLower c = (let n = (of_char c :: nat) in if 65 \<le> n \<and> n \<le> 90 then char_of (n + 32) else c)"

fun fields :: "string \<Rightarrow> string \<Rightarrow> string list" where
  "fields cur [] = (if cur = [] then [] else [cur])"
| "fields cur (c # cs) =
     (if wordChar c then fields (cur @ [toLower c]) cs
      else if cur = [] then fields [] cs else cur # fields [] cs)"

definition Analyze_ascii :: tokenizer where
  "Analyze_ascii text = fields [] text"

subsection \<open>Documents and services of the concrete scenarios\<close>

definition docBrown :: Doc where
  "docBrown = \<lparr>ID = 1, Text = ''brown'', PriorText = []\<rparr>"

definition docZero :: Doc where
  "docZero = \<lparr>ID = 0, Text = ''fox'', PriorText = []\<rparr>"

definition svcBrown :: Service where
  "svcBrown = fst (Upsert Analyze_ascii [docBrown] NewService)"


text \<open>The update of document 1 from the text "brown" to the text "fox".\<close>

definition docFox :: Doc where
  "docFox = \<lparr>ID = 1, Text = ''fox'', PriorText = ''brown''\<rparr>"

definition svcFox :: Service where
  "svcFox = fst (Upsert Analyze_ascii [docFox] svcBrown)"



subsection \<open>Requirements on the tokenizer\<close>


subsection \<open>Reachable services\<close>

text \<open>\<open>texts ds cur\<close> is the text last upserted under each external ID once the batch \<open>ds\<close> is
  applied. \<open>reach Analyze svc cur\<close> holds when \<open>svc\<close> results from a fresh service by a
  sequence of calls of \<^verbatim>\<open>Upsert\<close> that returned no error, and \<open>cur\<close> maps every external ID
  upserted so far to the text last upserted under it.\<close>

definition texts :: "Doc list \<Rightarrow> (uint64 \<rightharpoonup> string) \<Rightarrow> (uint64 \<rightharpoonup> string)" where
  "texts ds cur = foldl (\<lambda>c d. c(ID d \<mapsto> Text d)) cur ds"

inductive reach :: "tokenizer \<Rightarrow> Service \<Rightarrow> (uint64 \<rightharpoonup> string) \<Rightarrow> bool" for Analyze where
  reach_New: "reach Analyze NewService Map.empty"
| reach_Upsert:
    "reach Analyze svc cur \<Longrightarrow> Upsert Analyze ds svc = (svc', None)
       \<Longrightarrow> reach Analyze svc' (texts ds cur)"

subsection \<open>Invariants\<close>

text \<open>The postings hold no internal ID twice and only allocated IDs. In a linked service
  the allocated IDs are \<open>0, 1, \<dots>\<close> in order, every entry of the identity map points to
  a metadata entry that carries its external ID, and every metadata entry is pointed to by
  the identity map entry of the external ID it carries.\<close>

definition posts_ok :: "nat \<Rightarrow> (T \<rightharpoonup> DocID list) \<Rightarrow> bool" where
  "posts_ok n p = (\<forall>t ids. p t = Some ids \<longrightarrow> distinct ids \<and> (\<forall>d\<in>set ids. d < n))"

definition linked :: "Service \<Rightarrow> bool" where
  "linked svc =
     (allDocIDs (idx svc) = [0..<length (allDocIDs (idx svc))] \<and>
      posts_ok (length (allDocIDs (idx svc))) (post (idx svc)) \<and>
      (\<forall>e d. extIDs svc e = Some d \<longrightarrow>
         d < length (allDocIDs (idx svc)) \<and> (\<exists>m. docs svc d = Some m \<and> id_ext m = e)) \<and>
      (\<forall>d m. docs svc d = Some m \<longrightarrow> extIDs svc (id_ext m) = Some d))"

text \<open>The postings while \<^verbatim>\<open>AddTrigrams\<close> inserts the new ID \<open>n\<close>: a posting that holds
  \<open>n\<close> holds it last.\<close>

definition posts_mid :: "nat \<Rightarrow> (T \<rightharpoonup> DocID list) \<Rightarrow> bool" where
  "posts_mid n p = (\<forall>t ids. p t = Some ids \<longrightarrow>
      distinct ids \<and> (\<forall>d\<in>set ids. d < Suc n) \<and> (n \<in> set ids \<longrightarrow> last ids = n))"

section \<open>Properties\<close>

subsection \<open>Validation of a batch\<close>

lemma validate_first:
  "i < length ds \<Longrightarrow> invalid svc (ds ! i) \<Longrightarrow> (\<forall>j<i. \<not> invalid svc (ds ! j))
     \<Longrightarrow> validate (extIDs svc) k ds = Some (validationError (k + i) (ds ! i))"
proof (induction ds arbitrary: i k)
  case Nil
  then show ?case by simp
next
  case (Cons d ds)
  show ?case
  proof (cases i)
    case 0
    with Cons.prems show ?thesis
      by (auto simp: invalid_def validationError_def)
  next
    case (Suc i')
    from Cons.prems Suc have d: "\<not> invalid svc d" by auto
    from Cons.prems Suc have "validate (extIDs svc) (Suc k) ds = Some (validationError (Suc k + i') (ds ! i'))"
      by (intro Cons.IH) auto
    with d Suc show ?thesis by (auto simp: invalid_def)
  qed
qed

lemma validate_None:
  "(\<forall>d\<in>set ds. \<not> invalid svc d) \<Longrightarrow> validate (extIDs svc) k ds = None"
  by (induction ds arbitrary: k) (auto simp: invalid_def)

lemma validate_None_iff:
  "validate (extIDs svc) k ds = None \<longleftrightarrow> (\<forall>d\<in>set ds. \<not> invalid svc d)"
  by (induction ds arbitrary: k) (auto simp: invalid_def)

lemma first_invalid:
  assumes "list_ex (invalid svc) ds"
  shows "\<exists>i<length ds. invalid svc (ds ! i) \<and> (\<forall>j<i. \<not> invalid svc (ds ! j))"
proof -
  from assms obtain n where n: "n < length ds \<and> invalid svc (ds ! n)"
    by (auto simp: list_ex_iff in_set_conv_nth)
  define i where "i = (LEAST n. n < length ds \<and> invalid svc (ds ! n))"
  have 1: "i < length ds \<and> invalid svc (ds ! i)"
    unfolding i_def using n by (rule LeastI)
  have 2: "\<not> invalid svc (ds ! j)" if "j < i" for j
    using not_less_Least[of j "\<lambda>n. n < length ds \<and> invalid svc (ds ! n)"] that 1
    unfolding i_def by auto
  from 1 2 show ?thesis by blast
qed

text \<open>Claim C5. When a batch holds a document with a zero ID, or with an ID that the identity
  map holds at call time and an empty \<^verbatim>\<open>PriorText\<close>, \<^verbatim>\<open>Upsert\<close> returns the error of the first
  such document in batch order (the error carries its index), and the service (posting
  index, document metadata, identity map) is the one before the call.\<close>

theorem Upsert_rejects_invalid_batch:
  assumes "list_ex (invalid svc) ds"
  shows "\<exists>i<length ds. invalid svc (ds ! i) \<and> (\<forall>j<i. \<not> invalid svc (ds ! j)) \<and>
           Upsert Analyze ds svc = (svc, Some (validationError i (ds ! i)))"
proof -
  from first_invalid[OF assms] obtain i where
    i: "i < length ds" "invalid svc (ds ! i)" "\<forall>j<i. \<not> invalid svc (ds ! j)" by blast
  from validate_first[OF i, of 0] have "validate (extIDs svc) 0 ds = Some (validationError i (ds ! i))"
    by simp
  then have "Upsert Analyze ds svc = (svc, Some (validationError i (ds ! i)))"
    by (simp add: Upsert_def)
  with i show ?thesis by blast
qed

theorem Upsert_rejects_invalid_batch_witness:
  "Upsert Analyze_ascii [docBrown, docZero] NewService = (NewService, Some (ErrIDZero 1))"
proof -
  have "list_ex (invalid NewService) [docBrown, docZero]"
    by (simp add: invalid_def docZero_def)
  from Upsert_rejects_invalid_batch[OF this, of Analyze_ascii]
  obtain i where i: "i < length [docBrown, docZero]" "invalid NewService ([docBrown, docZero] ! i)"
    and u: "Upsert Analyze_ascii [docBrown, docZero] NewService
            = (NewService, Some (validationError i ([docBrown, docZero] ! i)))"
    by blast
  have "\<not> invalid NewService docBrown"
    by (simp add: invalid_def docBrown_def NewService_def)
  with i have "i = 1" by (cases i) auto
  with u show ?thesis by (simp add: validationError_def docZero_def)
qed

subsection \<open>The candidate loop of Search\<close>

lemma candidateLoop_cancel:
  "j < length cands \<Longrightarrow> ctx (k + j) \<Longrightarrow> candidateLoop ctx ds ws k cands acc = (None, Some ErrContext)"
proof (induction cands arbitrary: j k acc)
  case Nil
  then show ?case by simp
next
  case (Cons c cands)
  show ?case
  proof (cases j)
    case 0
    with Cons.prems show ?thesis by simp
  next
    case (Suc j')
    with Cons.prems have "candidateLoop ctx ds ws (Suc k) cands acc' = (None, Some ErrContext)" for acc'
      by (intro Cons.IH[of j']) auto
    then show ?thesis by (simp split: option.split)
  qed
qed

lemma candidateLoop_run:
  "(\<forall>j<length cands. \<not> ctx (k + j)) \<Longrightarrow>
     candidateLoop ctx ds ws k cands acc =
       (Some (acc @ map (\<lambda>d. id_ext (the (ds d))) (filter (verified ds ws) cands)), None)"
proof (induction cands arbitrary: k acc)
  case Nil
  then show ?case by simp
next
  case (Cons c cands)
  from Cons.prems have 0: "\<not> ctx k" by force
  from Cons.prems have "\<forall>j<length cands. \<not> ctx (Suc k + j)" by force
  then have "candidateLoop ctx ds ws (Suc k) cands acc' =
       (Some (acc' @ map (\<lambda>d. id_ext (the (ds d))) (filter (verified ds ws) cands)), None)" for acc'
    by (rule Cons.IH)
  note IH = this
  show ?case
  proof (cases "ds c")
    case None
    then have "\<not> verified ds ws c" by (simp add: verified_def)
    with 0 None IH show ?thesis by simp
  next
    case (Some doc)
    then have "verified ds ws c = list_all (Lookup_found (sa doc)) ws" by (simp add: verified_def)
    with 0 Some IH show ?thesis by simp
  qed
qed

lemma candidateLoop_shape:
  "candidateLoop ctx ds ws k cands acc = (None, Some ErrContext) \<or>
   (\<exists>ids. candidateLoop ctx ds ws k cands acc = (Some ids, None))"
  by (induction cands arbitrary: k acc) (auto split: option.split)


lemma analyze_brow: "analyze Analyze_ascii ''brow'' = ([0x5F6272, 0x62726F, 0x726F77], [''_brow''])"
  by code_simp

lemma analyze_brown:
  "analyze Analyze_ascii ''brown'' = ([0x5F6272, 0x62726F, 0x726F77, 0x6F776E], [''_brown''])"
  by code_simp

lemma analyze_b: "analyze Analyze_ascii ''b'' = ([0x5F62], [''_b''])"
  by code_simp

text \<open>Claim C6. A query from which analysis extracts no trigram (in particular a query with
  no token, such as the empty or a blank string) makes \<^verbatim>\<open>Search\<close> return the "not enough
  content" error and a nil slice; a query with at least one trigram never returns that
  error.\<close>

theorem Search_not_enough_content:
  "(fst (analyze Analyze q) = [] \<longrightarrow>
      Search Analyze ctx svc q = (None, Some (ErrNotEnoughContent q))) \<and>
   (Analyze (replacer_Replace q) = [] \<longrightarrow>
      Search Analyze ctx svc q = (None, Some (ErrNotEnoughContent q))) \<and>
   (fst (analyze Analyze q) \<noteq> [] \<longrightarrow>
      (\<forall>q'. snd (Search Analyze ctx svc q) \<noteq> Some (ErrNotEnoughContent q')))"
proof (intro conjI impI allI)
  assume "fst (analyze Analyze q) = []"
  then show "Search Analyze ctx svc q = (None, Some (ErrNotEnoughContent q))"
    by (cases "analyze Analyze q") (simp add: Search_def)
next
  assume "Analyze (replacer_Replace q) = []"
  then have "fst (analyze Analyze q) = []" by (simp add: analyze_def)
  then show "Search Analyze ctx svc q = (None, Some (ErrNotEnoughContent q))"
    by (cases "analyze Analyze q") (simp add: Search_def)
next
  fix q'
  assume ne: "fst (analyze Analyze q) \<noteq> []"
  obtain tGrams words where a: "analyze Analyze q = (tGrams, words)" by (cases "analyze Analyze q")
  with ne have s: "Search Analyze ctx svc q =
      candidateLoop ctx (docs svc) words 0 (QueryTrigrams tGrams (idx svc)) []"
    by (simp add: Search_def)
  from candidateLoop_shape[of ctx "docs svc" words 0 "QueryTrigrams tGrams (idx svc)" "[]"]
  show "snd (Search Analyze ctx svc q) \<noteq> Some (ErrNotEnoughContent q')"
    unfolding s by auto
qed

theorem Search_not_enough_content_witness:
  "Search Analyze_ascii neverDone NewService [] = (None, Some (ErrNotEnoughContent [])) \<and>
   Search Analyze_ascii neverDone NewService ''  '' = (None, Some (ErrNotEnoughContent ''  '')) \<and>
   snd (Search Analyze_ascii neverDone NewService ''b'') \<noteq> Some (ErrNotEnoughContent ''b'') \<and>
   snd (Search Analyze_ascii neverDone NewService ''brow'') \<noteq> Some (ErrNotEnoughContent ''brow'')"
proof -
  have 1: "Analyze_ascii (replacer_Replace []) = []" by code_simp
  have 2: "Analyze_ascii (replacer_Replace ''  '') = []" by code_simp
  have 3: "fst (analyze Analyze_ascii ''b'') \<noteq> []" by (simp add: analyze_b)
  have 4: "fst (analyze Analyze_ascii ''brow'') \<noteq> []" by (simp add: analyze_brow)
  from 1 2 3 4
    Search_not_enough_content[of Analyze_ascii "[]" neverDone NewService]
    Search_not_enough_content[of Analyze_ascii "''  ''" neverDone NewService]
    Search_not_enough_content[of Analyze_ascii "''b''" neverDone NewService]
    Search_not_enough_content[of Analyze_ascii "''brow''" neverDone NewService]
  show ?thesis by blast
qed

text \<open>Claim C7. \<^verbatim>\<open>Search\<close> polls the context before each candidate. When the context is
  done at one of these polls, the call returns the context's error and a nil slice, never
  the candidates verified so far; when it is done at none of them, the call returns a
  slice and no error.\<close>

theorem Search_cancellation:
  assumes "fst (analyze Analyze q) \<noteq> []"
  shows "((\<exists>k<length (QueryTrigrams (fst (analyze Analyze q)) (idx svc)). ctx k) \<longrightarrow>
            Search Analyze ctx svc q = (None, Some ErrContext)) \<and>
         ((\<forall>k<length (QueryTrigrams (fst (analyze Analyze q)) (idx svc)). \<not> ctx k) \<longrightarrow>
            (\<exists>ids. Search Analyze ctx svc q = (Some ids, None)))"
proof -
  obtain tGrams words where a: "analyze Analyze q = (tGrams, words)" by (cases "analyze Analyze q")
  with assms have s: "Search Analyze ctx svc q =
      candidateLoop ctx (docs svc) words 0 (QueryTrigrams tGrams (idx svc)) []"
    by (simp add: Search_def)
  show ?thesis
    unfolding s
    using candidateLoop_cancel[of _ "QueryTrigrams tGrams (idx svc)" ctx 0 "docs svc" words "[]"]
          candidateLoop_run[of "QueryTrigrams tGrams (idx svc)" ctx 0 "docs svc" words "[]"]
    by (auto simp: a)
qed

lemma cands_brow: "QueryTrigrams [0x5F6272, 0x62726F, 0x726F77] (idx svcBrown) = [0]"
  by code_simp

lemma Search_brow_never: "Search Analyze_ascii neverDone svcBrown ''brow'' = (Some [1], None)"
  by code_simp

theorem Search_cancellation_witness:
  "Search Analyze_ascii alwaysDone svcBrown ''brow'' = (None, Some ErrContext) \<and>
   Search Analyze_ascii neverDone svcBrown ''brow'' = (Some [1], None)"
proof -
  have 1: "fst (analyze Analyze_ascii ''brow'') \<noteq> []" by (simp add: analyze_brow)
  have 2: "\<exists>k<length (QueryTrigrams (fst (analyze Analyze_ascii ''brow'')) (idx svcBrown)). alwaysDone k"
    by (simp add: analyze_brow cands_brow alwaysDone_def)
  from Search_cancellation[OF 1, of svcBrown alwaysDone] 2
  have "Search Analyze_ascii alwaysDone svcBrown ''brow'' = (None, Some ErrContext)" by blast
  then show ?thesis by (simp add: Search_brow_never)
qed


subsection \<open>Case insensitivity\<close>















subsection \<open>The invariants are kept\<close>

lemma posts_ok_delete1: "posts_ok n p \<Longrightarrow> posts_ok n (delete1 d p t)"
  unfolding posts_ok_def delete1_def
  by (auto split: option.splits if_splits dest: notin_set_remove1)

lemma posts_ok_foldl_delete1: "posts_ok n p \<Longrightarrow> posts_ok n (foldl (delete1 d) p ts)"
  by (induction ts arbitrary: p) (simp_all add: posts_ok_delete1)

lemma allDocIDs_Delete [simp]: "allDocIDs (Delete w d ix) = allDocIDs ix"
  by (simp add: Delete_def)

lemma posts_ok_Delete: "posts_ok n (post ix) \<Longrightarrow> posts_ok n (post (Delete w d ix))"
  by (simp add: Delete_def posts_ok_foldl_delete1)

lemma allDocIDs_foldl_Delete [simp]:
  "allDocIDs (foldl (\<lambda>ix word. Delete word d ix) ix ws) = allDocIDs ix"
  by (induction ws arbitrary: ix) simp_all

lemma posts_ok_foldl_Delete:
  "posts_ok n (post ix) \<Longrightarrow> posts_ok n (post (foldl (\<lambda>ix word. Delete word d ix) ix ws))"
  by (induction ws arbitrary: ix) (simp_all add: posts_ok_Delete)

lemma posts_mid_insert1: "posts_mid n p \<Longrightarrow> posts_mid n (insert1 n p t)"
  unfolding posts_mid_def insert1_def
  by (auto split: option.splits if_splits)

lemma posts_mid_foldl: "posts_mid n p \<Longrightarrow> posts_mid n (foldl (insert1 n) p ts)"
  by (induction ts arbitrary: p) (simp_all add: posts_mid_insert1)

lemma posts_ok_foldl_insert1:
  assumes "posts_ok n p"
  shows "posts_ok (Suc n) (foldl (insert1 n) p ts)"
proof -
  from assms have "posts_mid n p" unfolding posts_ok_def posts_mid_def by fastforce
  then have "posts_mid n (foldl (insert1 n) p ts)" by (rule posts_mid_foldl)
  then show ?thesis unfolding posts_ok_def posts_mid_def by blast
qed

lemma posts_ok_Prune: "posts_ok n (post ix) \<Longrightarrow> posts_ok n (post (Prune k ix))"
  unfolding posts_ok_def Prune_def by (auto split: option.splits if_splits)

lemma posts_ok_Sort: "posts_ok n (post ix) \<Longrightarrow> posts_ok n (post (Sort ix))"
  unfolding posts_ok_def Sort_def by auto

lemma allDocIDs_Prune [simp]: "allDocIDs (Prune k ix) = allDocIDs ix"
  by (simp add: Prune_def)

lemma allDocIDs_Sort_upt: "allDocIDs ix = [0..<n] \<Longrightarrow> allDocIDs (Sort ix) = [0..<n]"
  by (simp add: Sort_def sorted_sort_id)

lemma idx_removeOld:
  "allDocIDs (idx (removeOld Analyze svc doc)) = allDocIDs (idx svc)"
  "posts_ok n (post (idx svc)) \<Longrightarrow> posts_ok n (post (idx (removeOld Analyze svc doc)))"
  by (simp_all add: removeOld_def posts_ok_foldl_Delete split: option.split)

lemma extIDs_removeOld [simp]: "extIDs (removeOld Analyze svc doc) = extIDs svc"
  by (simp add: removeOld_def split: option.split)

lemma docs_removeOld:
  "docs (removeOld Analyze svc doc) =
     (case extIDs svc (ID doc) of None \<Rightarrow> docs svc | Some d0 \<Rightarrow> (docs svc)(d0 := None))"
  by (simp add: removeOld_def split: option.split)

lemma upsertDoc_fields:
  "extIDs (upsertDoc Analyze svc doc) = (extIDs svc)(ID doc \<mapsto> length (allDocIDs (idx svc)))"
  "docs (upsertDoc Analyze svc doc) =
     (docs (removeOld Analyze svc doc))(length (allDocIDs (idx svc)) \<mapsto>
        \<lparr>sa = verifierText (snd (analyze Analyze (Text doc))), id_ext = ID doc\<rparr>)"
  "allDocIDs (idx (upsertDoc Analyze svc doc)) = allDocIDs (idx svc) @ [length (allDocIDs (idx svc))]"
  "post (idx (upsertDoc Analyze svc doc)) =
     foldl (insert1 (length (allDocIDs (idx svc)))) (post (idx (removeOld Analyze svc doc)))
       (fst (analyze Analyze (Text doc)))"
  by (simp_all add: upsertDoc_def AddTrigrams_def InsertTrigrams_def Let_def idx_removeOld
        split: prod.split)

lemma linked_upsertDoc:
  assumes "linked svc"
  shows "linked (upsertDoc Analyze svc doc)"
proof -
  let ?n = "length (allDocIDs (idx svc))"
  let ?svc' = "upsertDoc Analyze svc doc"
  from assms have a: "allDocIDs (idx svc) = [0..<?n]"
    and p: "posts_ok ?n (post (idx svc))"
    and e: "\<And>e d. extIDs svc e = Some d \<Longrightarrow> d < ?n \<and> (\<exists>m. docs svc d = Some m \<and> id_ext m = e)"
    and d: "\<And>d m. docs svc d = Some m \<Longrightarrow> extIDs svc (id_ext m) = Some d"
    unfolding linked_def by blast+
  have len: "length (allDocIDs (idx ?svc')) = Suc ?n" by (simp add: upsertDoc_fields)
  have 1: "allDocIDs (idx ?svc') = [0..<Suc ?n]"
    using a by (simp add: upsertDoc_fields)
  have 2: "posts_ok (Suc ?n) (post (idx ?svc'))"
    by (simp add: upsertDoc_fields posts_ok_foldl_insert1 idx_removeOld p)
  have fresh: "docs svc ?n = None"
  proof (cases "docs svc ?n")
    case (Some m)
    from e[OF d[OF Some]] show ?thesis by simp
  qed simp
  have 3: "d' < Suc ?n \<and> (\<exists>m. docs ?svc' d' = Some m \<and> id_ext m = e')"
    if h: "extIDs ?svc' e' = Some d'" for e' d'
  proof (cases "e' = ID doc")
    case True
    with h show ?thesis by (simp add: upsertDoc_fields)
  next
    case False
    with h have x: "extIDs svc e' = Some d'" by (simp add: upsertDoc_fields)
    from e[OF x] obtain m where m: "d' < ?n" "docs svc d' = Some m" "id_ext m = e'" by blast
    have "docs (removeOld Analyze svc doc) d' = Some m"
    proof (cases "extIDs svc (ID doc)")
      case None
      then show ?thesis by (simp add: docs_removeOld m)
    next
      case (Some d0)
      from e[OF Some] m False have "d0 \<noteq> d'" by auto
      with Some show ?thesis by (simp add: docs_removeOld m)
    qed
    with m show ?thesis by (simp add: upsertDoc_fields)
  qed
  have 4: "extIDs ?svc' (id_ext m) = Some d'" if h: "docs ?svc' d' = Some m" for d' m
  proof (cases "d' = ?n")
    case True
    with h show ?thesis by (auto simp: upsertDoc_fields)
  next
    case False
    with h have r: "docs (removeOld Analyze svc doc) d' = Some m" by (simp add: upsertDoc_fields)
    have "docs svc d' = Some m \<and> extIDs svc (ID doc) \<noteq> Some d'"
      using r by (auto simp: docs_removeOld split: option.splits if_splits)
    with d[of d' m] have "extIDs svc (id_ext m) = Some d'" "id_ext m \<noteq> ID doc" by auto
    then show ?thesis by (simp add: upsertDoc_fields)
  qed
  show ?thesis
    unfolding linked_def len using 1 2 3 4 by blast
qed

lemma linked_foldl_upsertDoc: "linked svc \<Longrightarrow> linked (foldl (upsertDoc Analyze) svc ds)"
  by (induction ds arbitrary: svc) (simp_all add: linked_upsertDoc)

lemma linked_finish:
  assumes "linked svc"
  shows "linked (svc\<lparr>idx := Sort (Prune k (idx svc))\<rparr>)"
proof -
  have l: "length (allDocIDs (Sort (Prune k (idx svc)))) = length (allDocIDs (idx svc))"
    by (simp add: Sort_def)
  from assms show ?thesis
    unfolding linked_def
    by (simp add: l posts_ok_Sort posts_ok_Prune)
       (metis allDocIDs_Sort_upt allDocIDs_Prune)
qed

lemma linked_New: "linked NewService"
  by (simp add: linked_def NewService_def NewIndex_def posts_ok_def)

lemma Upsert_ok:
  "Upsert Analyze ds svc = (svc', None) \<Longrightarrow>
     svc' = (foldl (upsertDoc Analyze) svc ds)
              \<lparr>idx := Sort (Prune (length (allDocIDs (idx (foldl (upsertDoc Analyze) svc ds))) div 10)
                              (idx (foldl (upsertDoc Analyze) svc ds)))\<rparr>"
  by (auto simp: Upsert_def Let_def split: option.splits)

lemma linked_Upsert: "linked svc \<Longrightarrow> Upsert Analyze ds svc = (svc', None) \<Longrightarrow> linked svc'"
  by (drule Upsert_ok) (simp add: linked_finish linked_foldl_upsertDoc)

lemma reach_linked: "reach Analyze svc cur \<Longrightarrow> linked svc"
  by (induction rule: reach.induct) (auto intro: linked_New linked_Upsert)


subsection \<open>The identity map and the IDs upserted\<close>

lemma dom_texts: "dom (texts ds cur) = dom cur \<union> ID ` set ds"
  unfolding texts_def by (induction ds arbitrary: cur) auto

lemma dom_extIDs_foldl:
  "dom (extIDs (foldl (upsertDoc Analyze) svc ds)) = dom (extIDs svc) \<union> ID ` set ds"
  by (induction ds arbitrary: svc) (auto simp: upsertDoc_fields)

lemma reach_dom: "reach Analyze svc cur \<Longrightarrow> dom (extIDs svc) = dom cur \<and> finite (dom cur)"
proof (induction rule: reach.induct)
  case reach_New
  then show ?case by (simp add: NewService_def)
next
  case (reach_Upsert svc cur ds svc')
  from Upsert_ok[OF reach_Upsert.hyps(2)]
  have "extIDs svc' = extIDs (foldl (upsertDoc Analyze) svc ds)" by simp
  with reach_Upsert.IH show ?case by (simp add: dom_texts dom_extIDs_foldl)
qed

lemma linked_card:
  assumes "linked svc"
  shows "card (dom (docs svc)) = card (dom (extIDs svc))"
proof -
  from assms have e: "\<And>e d. extIDs svc e = Some d \<Longrightarrow> \<exists>m. docs svc d = Some m \<and> id_ext m = e"
    and d: "\<And>d m. docs svc d = Some m \<Longrightarrow> extIDs svc (id_ext m) = Some d"
    unfolding linked_def by blast+
  let ?f = "\<lambda>e. the (extIDs svc e)"
  have inj: "inj_on ?f (dom (extIDs svc))"
  proof (rule inj_onI)
    fix x y
    assume "x \<in> dom (extIDs svc)" "y \<in> dom (extIDs svc)" "?f x = ?f y"
    then obtain dx where "extIDs svc x = Some dx" "extIDs svc y = Some dx" by auto
    with e[of x dx] e[of y dx] show "x = y" by auto
  qed
  have "?f ` dom (extIDs svc) = dom (docs svc)"
  proof (intro set_eqI iffI)
    fix x assume "x \<in> ?f ` dom (extIDs svc)"
    then obtain y where "extIDs svc y = Some x" by auto
    with e[of y x] show "x \<in> dom (docs svc)" by auto
  next
    fix x assume "x \<in> dom (docs svc)"
    then obtain m where "docs svc x = Some m" by auto
    from d[OF this] show "x \<in> ?f ` dom (extIDs svc)" by force
  qed
  with card_image[OF inj] show ?thesis by simp
qed

lemma linked_unique:
  assumes "linked svc" and "d \<in> dom (docs svc)"
  shows "\<exists>!e. extIDs svc e = Some d"
proof -
  from assms(1) have e: "\<And>e d. extIDs svc e = Some d \<Longrightarrow> \<exists>m. docs svc d = Some m \<and> id_ext m = e"
    and d: "\<And>d m. docs svc d = Some m \<Longrightarrow> extIDs svc (id_ext m) = Some d"
    unfolding linked_def by blast+
  from assms(2) obtain m where m: "docs svc d = Some m" by auto
  show ?thesis
  proof (rule ex1I[of _ "id_ext m"])
    show "extIDs svc (id_ext m) = Some d" by (rule d[OF m])
  next
    fix e' assume "extIDs svc e' = Some d"
    from e[OF this] m show "e' = id_ext m" by auto
  qed
qed

subsection \<open>The candidates and the result of Search\<close>

lemma distinct_QueryTrigrams:
  assumes "allDocIDs ix = [0..<n]" and "posts_ok n (post ix)"
  shows "distinct (QueryTrigrams ts ix)"
proof -
  have "distinct (posting ix t)" for t
    using assms(2) by (auto simp: posting_def posts_ok_def split: option.split)
  with assms(1) show ?thesis
    by (auto simp: QueryTrigrams_def split: list.split)
qed

lemma candidateLoop_Some:
  assumes "candidateLoop ctx ds ws k cands acc = (Some ids, e)"
  shows "ids = acc @ map (\<lambda>d. id_ext (the (ds d))) (filter (verified ds ws) cands)"
proof (cases "\<exists>j<length cands. ctx (k + j)")
  case True
  then obtain j where "j < length cands" "ctx (k + j)" by blast
  then have "candidateLoop ctx ds ws k cands acc = (None, Some ErrContext)"
    by (rule candidateLoop_cancel)
  with assms show ?thesis by simp
next
  case False
  then have "\<forall>j<length cands. \<not> ctx (k + j)" by blast
  from candidateLoop_run[OF this] assms show ?thesis by simp
qed

lemma Search_Some:
  assumes "fst (Search Analyze ctx svc q) = Some ids"
  shows "fst (analyze Analyze q) \<noteq> [] \<and>
         ids = map (\<lambda>d. id_ext (the (docs svc d)))
                 (filter (verified (docs svc) (snd (analyze Analyze q)))
                    (QueryTrigrams (fst (analyze Analyze q)) (idx svc)))"
proof -
  obtain tGrams words where a: "analyze Analyze q = (tGrams, words)" by (cases "analyze Analyze q")
  from assms a have ne: "tGrams \<noteq> []" by (auto simp: Search_def)
  with assms a obtain e where
    "candidateLoop ctx (docs svc) words 0 (QueryTrigrams tGrams (idx svc)) [] = (Some ids, e)"
    by (cases "candidateLoop ctx (docs svc) words 0 (QueryTrigrams tGrams (idx svc)) []")
       (auto simp: Search_def)
  from candidateLoop_Some[OF this] ne a show ?thesis by simp
qed

lemma linked_Search_distinct:
  assumes "linked svc" and "fst (Search Analyze ctx svc q) = Some ids"
  shows "distinct ids"
proof -
  from assms(1) have a: "allDocIDs (idx svc) = [0..<length (allDocIDs (idx svc))]"
    and p: "posts_ok (length (allDocIDs (idx svc))) (post (idx svc))"
    and d: "\<And>d m. docs svc d = Some m \<Longrightarrow> extIDs svc (id_ext m) = Some d"
    unfolding linked_def by blast+
  let ?ws = "snd (analyze Analyze q)"
  let ?c = "filter (verified (docs svc) ?ws) (QueryTrigrams (fst (analyze Analyze q)) (idx svc))"
  have dc: "distinct ?c" using distinct_QueryTrigrams[OF a p] by simp
  have "inj_on (\<lambda>d. id_ext (the (docs svc d))) (set ?c)"
  proof (rule inj_onI)
    fix x y
    assume "x \<in> set ?c" "y \<in> set ?c"
      and eq: "id_ext (the (docs svc x)) = id_ext (the (docs svc y))"
    then obtain mx my where m: "docs svc x = Some mx" "docs svc y = Some my"
      by (auto simp: verified_def split: option.splits)
    from d[OF m(1)] d[OF m(2)] eq m show "x = y" by simp
  qed
  with dc have "distinct (map (\<lambda>d. id_ext (the (docs svc d))) ?c)" by (simp add: distinct_map)
  with Search_Some[OF assms(2)] show ?thesis by simp
qed

text \<open>Claim C10. In every service that results from a fresh one by calls of \<^verbatim>\<open>Upsert\<close> that
  returned no error, \<^verbatim>\<open>docs\<close> and \<^verbatim>\<open>extIDs\<close> have the same number of entries, every entry of
  \<^verbatim>\<open>extIDs\<close> maps an external ID to an internal ID whose \<^verbatim>\<open>docs\<close> entry carries that external
  ID, and every key of \<^verbatim>\<open>docs\<close> is the image of exactly one external ID; \<^verbatim>\<open>DocCount\<close> is the
  number of distinct external IDs upserted so far, and no call of \<^verbatim>\<open>Search\<close> returns an
  external ID twice.\<close>

theorem docs_extIDs_bijection:
  assumes "reach Analyze svc cur"
  shows "card (dom (docs svc)) = card (dom (extIDs svc)) \<and>
         (\<forall>e d. extIDs svc e = Some d \<longrightarrow> (\<exists>m. docs svc d = Some m \<and> id_ext m = e)) \<and>
         (\<forall>d\<in>dom (docs svc). \<exists>!e. extIDs svc e = Some d) \<and>
         DocCount svc = card (dom cur) \<and>
         (\<forall>ctx q ids. fst (Search Analyze ctx svc q) = Some ids \<longrightarrow> distinct ids)"
proof -
  from assms have l: "linked svc" by (rule reach_linked)
  from reach_dom[OF assms] have dm: "dom (extIDs svc) = dom cur" by simp
  have 1: "card (dom (docs svc)) = card (dom (extIDs svc))" by (rule linked_card[OF l])
  have 2: "\<forall>e d. extIDs svc e = Some d \<longrightarrow> (\<exists>m. docs svc d = Some m \<and> id_ext m = e)"
    using l unfolding linked_def by blast
  have 3: "\<forall>d\<in>dom (docs svc). \<exists>!e. extIDs svc e = Some d"
    using linked_unique[OF l] by blast
  have 4: "DocCount svc = card (dom cur)" using 1 dm by (simp add: DocCount_def)
  have 5: "\<forall>ctx q ids. fst (Search Analyze ctx svc q) = Some ids \<longrightarrow> distinct ids"
    using linked_Search_distinct[OF l] by blast
  from 1 2 3 4 5 show ?thesis by blast
qed


lemma Upsert_valid:
  "validate (extIDs svc) 0 ds = None \<Longrightarrow> Upsert Analyze ds svc = (fst (Upsert Analyze ds svc), None)"
  by (simp add: Upsert_def Let_def)

lemma reach_svcBrown: "reach Analyze_ascii svcBrown (texts [docBrown] Map.empty)"
proof -
  have "validate (extIDs NewService) 0 [docBrown] = None"
    by (simp add: docBrown_def NewService_def)
  then have "Upsert Analyze_ascii [docBrown] NewService = (svcBrown, None)"
    unfolding svcBrown_def by (rule Upsert_valid)
  with reach_New show ?thesis by (rule reach_Upsert)
qed

lemma reach_svcFox: "reach Analyze_ascii svcFox (texts [docFox] (texts [docBrown] Map.empty))"
proof -
  have "validate (extIDs svcBrown) 0 [docFox] = None"
    by (simp add: docFox_def)
  then have "Upsert Analyze_ascii [docFox] svcBrown = (svcFox, None)"
    unfolding svcFox_def by (rule Upsert_valid)
  with reach_svcBrown show ?thesis by (rule reach_Upsert)
qed

theorem docs_extIDs_bijection_witness:
  "reach Analyze_ascii svcFox (texts [docFox] (texts [docBrown] Map.empty)) \<and>
   DocCount svcFox = 1 \<and> card (dom (docs svcFox)) = card (dom (extIDs svcFox))"
proof -
  have "dom (texts [docFox] (texts [docBrown] Map.empty)) = {1}"
    by (simp add: dom_texts docFox_def docBrown_def)
  with docs_extIDs_bijection[OF reach_svcFox] reach_svcFox show ?thesis by simp
qed


subsection \<open>Upsert with an empty text\<close>







end
